theory Spec2Isabelle
  imports Complex_Main "HOL-Library.Sublist" "HOL-Library.Multiset"
begin

section \<open>The outlet registry: \<open>parseOutlets\<close>\<close>

text \<open>
  Go strings are byte sequences, so a string is a \<open>char list\<close> of bytes.
  \<open>strings.TrimSpace\<close> removes leading and trailing white space as Unicode defines it
  (\<open>unicode.IsSpace\<close>): the six ASCII characters TAB, LF, VT, FF, CR, SPACE, and the runes
  U+0085, U+00A0, U+1680, U+2000 to U+200A, U+2028, U+2029, U+202F, U+205F, U+3000.
  \<open>spaceRunes\<close> lists their UTF-8 encodings; a white-space rune starts (ends) a string
  exactly when one of these byte sequences is a prefix (suffix) of it.
\<close>

record Outlet =
  Name :: string
  IP :: string

definition spaceRunes :: "string list" where
  "spaceRunes =
     [[CHR 0x09], [CHR 0x0A], [CHR 0x0B], [CHR 0x0C], [CHR 0x0D], [CHR 0x20],
      [CHR 0xC2, CHR 0x85], [CHR 0xC2, CHR 0xA0],
      [CHR 0xE1, CHR 0x9A, CHR 0x80],
      [CHR 0xE2, CHR 0x80, CHR 0x80], [CHR 0xE2, CHR 0x80, CHR 0x81],
      [CHR 0xE2, CHR 0x80, CHR 0x82], [CHR 0xE2, CHR 0x80, CHR 0x83],
      [CHR 0xE2, CHR 0x80, CHR 0x84], [CHR 0xE2, CHR 0x80, CHR 0x85],
      [CHR 0xE2, CHR 0x80, CHR 0x86], [CHR 0xE2, CHR 0x80, CHR 0x87],
      [CHR 0xE2, CHR 0x80, CHR 0x88], [CHR 0xE2, CHR 0x80, CHR 0x89],
      [CHR 0xE2, CHR 0x80, CHR 0x8A],
      [CHR 0xE2, CHR 0x80, CHR 0xA8], [CHR 0xE2, CHR 0x80, CHR 0xA9],
      [CHR 0xE2, CHR 0x80, CHR 0xAF],
      [CHR 0xE2, CHR 0x81, CHR 0x9F],
      [CHR 0xE3, CHR 0x80, CHR 0x80]]"

function TrimLeft :: "string \<Rightarrow> string" where
  "TrimLeft s =
     (case List.find (\<lambda>p. prefix p s) spaceRunes of
        None \<Rightarrow> s
      | Some p \<Rightarrow> TrimLeft (drop (length p) s))"
  by pat_completeness auto
termination
proof (relation "measure length")
  show "wf (measure length)" by simp
next
  fix s p
  assume "List.find (\<lambda>p. prefix p s) spaceRunes = Some p"
  then have mem: "p \<in> set spaceRunes" and pre: "prefix p s"
    by (auto simp: find_Some_iff)
  from mem have "p \<noteq> []" by (auto simp: spaceRunes_def)
  with pre have "s \<noteq> []" by auto
  with \<open>p \<noteq> []\<close> show "(drop (length p) s, s) \<in> measure length" by simp
qed

function TrimRight :: "string \<Rightarrow> string" where
  "TrimRight s =
     (case List.find (\<lambda>p. suffix p s) spaceRunes of
        None \<Rightarrow> s
      | Some p \<Rightarrow> TrimRight (take (length s - length p) s))"
  by pat_completeness auto
termination
proof (relation "measure length")
  show "wf (measure length)" by simp
next
  fix s p
  assume "List.find (\<lambda>p. suffix p s) spaceRunes = Some p"
  then have mem: "p \<in> set spaceRunes" and suf: "suffix p s"
    by (auto simp: find_Some_iff)
  from mem have "p \<noteq> []" by (auto simp: spaceRunes_def)
  with suf have "s \<noteq> []" by auto
  with \<open>p \<noteq> []\<close> show "(take (length s - length p) s, s) \<in> measure length" by simp
qed

declare TrimLeft.simps [simp del] TrimRight.simps [simp del]

definition TrimSpace :: "string \<Rightarrow> string" where
  "TrimSpace s = TrimRight (TrimLeft s)"

text \<open>
  \<open>strings.Split(s, sep)\<close> for a one-byte separator: the substrings between the
  separators, one more than there are separators; \<open>Split("", sep)\<close> is \<open>[""]\<close>.
  The \<open>[]\<close> branch of the case is never taken (\<open>Split\<close> never returns the empty list).
\<close>

fun Split :: "string \<Rightarrow> char \<Rightarrow> string list" where
  "Split [] sep = [[]]"
| "Split (c # cs) sep =
     (if c = sep then [] # Split cs sep
      else (case Split cs sep of [] \<Rightarrow> [[c]] | p # ps \<Rightarrow> (c # p) # ps))"

text \<open>
  The loop of \<open>parseOutlets\<close> over the comma-separated entries, with the slice
  \<open>outlets\<close> as accumulator; each \<open>continue\<close> of the source is a recursive call that
  leaves the accumulator alone. \<open>parts ! 0\<close> and \<open>parts ! 1\<close> are read only when
  \<open>length parts = 2\<close>. The warnings logged for dropped entries are not modelled.
\<close>

fun parseOutlets_loop :: "string list \<Rightarrow> Outlet list \<Rightarrow> Outlet list" where
  "parseOutlets_loop [] outlets = outlets"
| "parseOutlets_loop (entry # rest) outlets =
     (let outletStr = TrimSpace entry in
      if outletStr = [] then parseOutlets_loop rest outlets
      else
        let parts = Split outletStr (CHR '':'') in
        if length parts \<noteq> 2 then parseOutlets_loop rest outlets
        else
          let name = TrimSpace (parts ! 0);
              ip = TrimSpace (parts ! 1) in
          if name = [] \<or> ip = [] then parseOutlets_loop rest outlets
          else parseOutlets_loop rest (outlets @ [\<lparr>Name = name, IP = ip\<rparr>]))"

definition parseOutlets :: "string \<Rightarrow> Outlet list" where
  "parseOutlets outletsStr = parseOutlets_loop (Split outletsStr (CHR '','')) []"

text \<open>
  The registry as the specification words it: an entry is kept when, after trimming, it
  splits on \<open>:\<close> into exactly two parts whose trimmed name and address are both
  non-empty; the outlet of a kept entry has the trimmed parts.
\<close>

definition entry_kept :: "string \<Rightarrow> bool" where
  "entry_kept entry \<longleftrightarrow>
     (let parts = Split (TrimSpace entry) (CHR '':'') in
      length parts = 2 \<and> TrimSpace (parts ! 0) \<noteq> [] \<and> TrimSpace (parts ! 1) \<noteq> [])"

definition entry_outlet :: "string \<Rightarrow> Outlet" where
  "entry_outlet entry =
     (let parts = Split (TrimSpace entry) (CHR '':'') in
      \<lparr>Name = TrimSpace (parts ! 0), IP = TrimSpace (parts ! 1)\<rparr>)"

definition registry_spec :: "string \<Rightarrow> Outlet list" where
  "registry_spec outletsStr = map entry_outlet (filter entry_kept (Split outletsStr (CHR '','')))"

section \<open>The device status payload\<close>









section \<open>Decoding the payload: \<open>json.Unmarshal\<close> into \<open>TasmotaStatus\<close>\<close>


























section \<open>The prober: \<open>probeTasmota\<close>\<close>





section \<open>The collector\<close>

text \<open>
  A \<open>GaugeVec\<close> is what \<open>prometheus.NewGaugeVec\<close> is given: name, help and label names.
  \<open>vec.WithLabelValues(v)\<close> panics unless there is one value per label name. The three
  statements \<open>m := vec.WithLabelValues(label); m.Set(x); m.Collect(ch)\<close> put on the
  channel the gauge of that name and label, holding \<open>x\<close>: one \<open>Metric\<close> observation.
  An observation is the gauge as it is when it is sent. (Outlets registered under one
  name share their gauges; what a reader sees who looks at a sent gauge only after
  another task has set it again is outside the model.)
\<close>

record GaugeVec =
  gaugeName :: string
  gaugeHelp :: string
  labelNames :: "string list"


record TasmotaCollector =
  outlets :: "Outlet list"
  onGauge :: GaugeVec
  voltageGauge :: GaugeVec
  currentGauge :: GaugeVec
  powerGauge :: GaugeVec
  apparentPowerGauge :: GaugeVec
  reactivePowerGauge :: GaugeVec
  factorGauge :: GaugeVec
  todayGauge :: GaugeVec
  yesterdayGauge :: GaugeVec
  totalGauge :: GaugeVec
  upGauge :: GaugeVec
  temperatureGauge :: GaugeVec



































section \<open>Lemmas\<close>

subsection \<open>Splitting and the parser loop\<close>

lemma Split_not_Nil: "Split s sep \<noteq> []"
  by (induction s) (auto split: list.splits)

lemma length_Split: "length (Split s sep) = Suc (length (filter (\<lambda>c. c = sep) s))"
proof (induction s)
  case Nil
  show ?case by simp
next
  case (Cons c cs)
  then show ?case by (cases "Split cs sep") auto
qed

lemma Split_no_sep: "sep \<notin> set s \<Longrightarrow> Split s sep = [s]"
  by (induction s) auto

lemma Split_append: "Split (s1 @ sep # s2) sep = Split s1 sep @ Split s2 sep"
proof (induction s1)
  case Nil
  show ?case by simp
next
  case (Cons c cs)
  then show ?case
    using Split_not_Nil [of cs sep] by (cases "Split cs sep") auto
qed

lemma Split_parts_no_sep: "p \<in> set (Split s sep) \<Longrightarrow> sep \<notin> set p"
proof (induction s arbitrary: p)
  case Nil
  then show ?case by simp
next
  case (Cons c cs)
  then show ?case
    by (cases "Split cs sep") (auto split: if_splits)
qed

lemma parseOutlets_loop_spec:
  "parseOutlets_loop entries acc = acc @ map entry_outlet (filter entry_kept entries)"
proof (induction entries arbitrary: acc)
  case Nil
  show ?case by simp
next
  case (Cons e es)
  show ?case
  proof (cases "TrimSpace e = []")
    case True
    then have "\<not> entry_kept e" by (simp add: entry_kept_def)
    with True Cons show ?thesis by simp
  next
    case False
    then show ?thesis
      using Cons by (simp add: entry_kept_def entry_outlet_def Let_def)
  qed
qed

lemma parseOutlets_registry_spec: "parseOutlets s = registry_spec s"
  by (simp add: parseOutlets_def registry_spec_def parseOutlets_loop_spec)

lemma parseOutlets_append:
  "parseOutlets (s1 @ CHR '','' # s2) = parseOutlets s1 @ parseOutlets s2"
  by (simp add: parseOutlets_registry_spec registry_spec_def Split_append)

lemma parseOutlets_entry:
  "CHR '','' \<notin> set e \<Longrightarrow> parseOutlets e = (if entry_kept e then [entry_outlet e] else [])"
  by (simp add: parseOutlets_registry_spec registry_spec_def Split_no_sep)

lemma parseOutlets_concat:
  "parseOutlets s = concat (map parseOutlets (Split s (CHR '','')))"
proof -
  have "map entry_outlet (filter entry_kept es) = concat (map parseOutlets es)"
    if "\<forall>e \<in> set es. CHR '','' \<notin> set e" for es
    using that by (induction es) (simp_all add: parseOutlets_entry)
  then show ?thesis
    using Split_parts_no_sep [of _ s "CHR '',''"]
    by (simp add: parseOutlets_registry_spec registry_spec_def)
qed

subsection \<open>Trimming\<close>

lemma spaceRunes_props:
  "p \<in> set spaceRunes \<Longrightarrow> p \<noteq> [] \<and> CHR '':'' \<notin> set p \<and> CHR '','' \<notin> set p"
  by (auto simp: spaceRunes_def)

lemma TrimLeft_None: "List.find (\<lambda>p. prefix p s) spaceRunes = None \<Longrightarrow> TrimLeft s = s"
  by (subst TrimLeft.simps) simp

lemma TrimLeft_Some:
  "List.find (\<lambda>p. prefix p s) spaceRunes = Some p \<Longrightarrow> TrimLeft s = TrimLeft (drop (length p) s)"
  by (subst TrimLeft.simps) simp

lemma TrimRight_None: "List.find (\<lambda>p. suffix p s) spaceRunes = None \<Longrightarrow> TrimRight s = s"
  by (subst TrimRight.simps) simp

lemma TrimRight_Some:
  "List.find (\<lambda>p. suffix p s) spaceRunes = Some p \<Longrightarrow>
   TrimRight s = TrimRight (take (length s - length p) s)"
  by (subst TrimRight.simps) simp

lemma find_prefix_Some:
  "List.find (\<lambda>p. prefix p s) spaceRunes = Some p \<Longrightarrow> p \<in> set spaceRunes \<and> prefix p s"
  by (auto simp: find_Some_iff)

lemma find_suffix_Some:
  "List.find (\<lambda>p. suffix p s) spaceRunes = Some p \<Longrightarrow> p \<in> set spaceRunes \<and> suffix p s"
  by (auto simp: find_Some_iff)

lemma filter_TrimLeft:
  "filter (\<lambda>c. c = CHR '':'') (TrimLeft s) = filter (\<lambda>c. c = CHR '':'') s"
proof (induction s rule: TrimLeft.induct)
  case (1 s)
  show ?case
  proof (cases "List.find (\<lambda>p. prefix p s) spaceRunes")
    case None
    then show ?thesis by (simp add: TrimLeft_None)
  next
    case (Some p)
    from find_prefix_Some [OF Some] have mem: "p \<in> set spaceRunes" and pre: "prefix p s"
      by simp_all
    from pre have s: "s = p @ drop (length p) s"
      by (auto simp: prefix_def)
    from mem have "filter (\<lambda>c. c = CHR '':'') p = []"
      using spaceRunes_props [of p] by (auto simp: filter_empty_conv)
    then have "filter (\<lambda>c. c = CHR '':'') s = filter (\<lambda>c. c = CHR '':'') (drop (length p) s)"
      by (subst s) simp
    with "1.IH" [OF Some] Some show ?thesis
      by (simp add: TrimLeft_Some)
  qed
qed

lemma filter_TrimRight:
  "filter (\<lambda>c. c = CHR '':'') (TrimRight s) = filter (\<lambda>c. c = CHR '':'') s"
proof (induction s rule: TrimRight.induct)
  case (1 s)
  show ?case
  proof (cases "List.find (\<lambda>p. suffix p s) spaceRunes")
    case None
    then show ?thesis by (simp add: TrimRight_None)
  next
    case (Some p)
    from find_suffix_Some [OF Some] have mem: "p \<in> set spaceRunes" and suf: "suffix p s"
      by simp_all
    from suf have s: "s = take (length s - length p) s @ p"
      by (auto simp: suffix_def)
    from mem have "filter (\<lambda>c. c = CHR '':'') p = []"
      using spaceRunes_props [of p] by (auto simp: filter_empty_conv)
    then have "filter (\<lambda>c. c = CHR '':'') s
        = filter (\<lambda>c. c = CHR '':'') (take (length s - length p) s)"
      by (subst s) simp
    with "1.IH" [OF Some] Some show ?thesis
      by (simp add: TrimRight_Some)
  qed
qed

lemma filter_TrimSpace:
  "filter (\<lambda>c. c = CHR '':'') (TrimSpace s) = filter (\<lambda>c. c = CHR '':'') s"
  by (simp add: TrimSpace_def filter_TrimLeft filter_TrimRight)

lemma entry_two_colons_dropped:
  assumes "CHR '':'' \<in> set addr"
  shows "\<not> entry_kept (name @ CHR '':'' # addr)"
proof -
  from assms have "filter (\<lambda>c. c = CHR '':'') addr \<noteq> []"
    by (simp add: filter_empty_conv)
  then have "0 < length (filter (\<lambda>c. c = CHR '':'') addr)" by simp
  then have "length (Split (TrimSpace (name @ CHR '':'' # addr)) (CHR '':'')) \<noteq> 2"
    by (simp add: length_Split filter_TrimSpace)
  then show ?thesis by (simp add: entry_kept_def Let_def)
qed

lemma suffix_TrimLeft: "suffix (TrimLeft s) s"
proof (induction s rule: TrimLeft.induct)
  case (1 s)
  show ?case
  proof (cases "List.find (\<lambda>p. prefix p s) spaceRunes")
    case None
    then show ?thesis by (simp add: TrimLeft_None)
  next
    case (Some p)
    have "suffix (drop (length p) s) s" by (rule suffix_drop)
    with "1.IH" [OF Some] have "suffix (TrimLeft (drop (length p) s)) s"
      by (rule suffix_order.trans)
    with Some show ?thesis by (simp add: TrimLeft_Some)
  qed
qed

lemma prefix_TrimRight: "prefix (TrimRight s) s"
proof (induction s rule: TrimRight.induct)
  case (1 s)
  show ?case
  proof (cases "List.find (\<lambda>p. suffix p s) spaceRunes")
    case None
    then show ?thesis by (simp add: TrimRight_None)
  next
    case (Some p)
    have "prefix (take (length s - length p) s) s" by (rule take_is_prefix)
    with "1.IH" [OF Some] have "prefix (TrimRight (take (length s - length p) s)) s"
      by (rule prefix_order.trans)
    with Some show ?thesis by (simp add: TrimRight_Some)
  qed
qed

lemma TrimLeft_fixed: "TrimLeft s = s \<Longrightarrow> List.find (\<lambda>p. prefix p s) spaceRunes = None"
proof (rule ccontr)
  assume fixed: "TrimLeft s = s" and "List.find (\<lambda>p. prefix p s) spaceRunes \<noteq> None"
  then obtain p where Some: "List.find (\<lambda>p. prefix p s) spaceRunes = Some p" by auto
  from find_prefix_Some [OF Some] have "p \<noteq> []" and "prefix p s"
    using spaceRunes_props [of p] by simp_all
  then have "length (drop (length p) s) < length s"
    by (cases s) (auto simp: prefix_def)
  moreover have "length (TrimLeft (drop (length p) s)) \<le> length (drop (length p) s)"
    using suffix_TrimLeft [of "drop (length p) s"] by (rule suffix_length_le)
  ultimately have "length (TrimLeft s) < length s"
    using Some by (simp add: TrimLeft_Some)
  with fixed show False by simp
qed

lemma TrimRight_fixed: "TrimRight s = s \<Longrightarrow> List.find (\<lambda>p. suffix p s) spaceRunes = None"
proof (rule ccontr)
  assume fixed: "TrimRight s = s" and "List.find (\<lambda>p. suffix p s) spaceRunes \<noteq> None"
  then obtain p where Some: "List.find (\<lambda>p. suffix p s) spaceRunes = Some p" by auto
  from find_suffix_Some [OF Some] have "p \<noteq> []" and "suffix p s"
    using spaceRunes_props [of p] by simp_all
  then have "length (take (length s - length p) s) < length s"
    by (cases s) (auto simp: suffix_def)
  moreover have "length (TrimRight (take (length s - length p) s))
      \<le> length (take (length s - length p) s)"
    using prefix_TrimRight [of "take (length s - length p) s"] by (rule prefix_length_le)
  ultimately have "length (TrimRight s) < length s"
    using Some by (simp add: TrimRight_Some)
  with fixed show False by simp
qed

lemma TrimSpace_fixed:
  assumes "TrimSpace s = s"
  shows "TrimLeft s = s" and "TrimRight s = s"
proof -
  have le1: "length (TrimRight (TrimLeft s)) \<le> length (TrimLeft s)"
    using prefix_TrimRight [of "TrimLeft s"] by (rule prefix_length_le)
  have le2: "length (TrimLeft s) \<le> length s"
    using suffix_TrimLeft [of s] by (rule suffix_length_le)
  from assms have "length (TrimRight (TrimLeft s)) = length s"
    by (simp add: TrimSpace_def)
  with le1 le2 have "length (TrimLeft s) = length s" by simp
  moreover obtain zs where "s = zs @ TrimLeft s"
    using suffix_TrimLeft [of s] by (auto simp: suffix_def)
  then have "length s = length zs + length (TrimLeft s)"
    by (metis length_append)
  ultimately have "zs = []" by simp
  with \<open>s = zs @ TrimLeft s\<close> show l: "TrimLeft s = s" by simp
  with assms show "TrimRight s = s" by (simp add: TrimSpace_def)
qed

lemma TrimSpace_entry_fixed:
  assumes n: "TrimSpace name = name" "name \<noteq> []"
    and a: "TrimSpace addr = addr" "addr \<noteq> []"
  shows "TrimSpace (name @ CHR '':'' # addr) = name @ CHR '':'' # addr"
proof -
  let ?e = "name @ CHR '':'' # addr"
  have noL: "\<not> prefix p name" if "p \<in> set spaceRunes" for p
    using TrimLeft_fixed [OF TrimSpace_fixed(1) [OF n(1)]] that
    by (auto simp: find_None_iff)
  have noR: "\<not> suffix p addr" if "p \<in> set spaceRunes" for p
    using TrimRight_fixed [OF TrimSpace_fixed(2) [OF a(1)]] that
    by (auto simp: find_None_iff)
  have "\<not> prefix p ?e" if mem: "p \<in> set spaceRunes" for p
  proof
    assume "prefix p ?e"
    then consider "prefix p name" | us where "p = name @ us" "prefix us (CHR '':'' # addr)"
      by (auto simp: prefix_append)
    then show False
    proof cases
      case 1
      with noL [OF mem] show False by simp
    next
      case 2
      show False
      proof (cases us)
        case Nil
        with 2 noL [OF mem] show False by simp
      next
        case (Cons u us')
        with 2 have "CHR '':'' \<in> set p" by auto
        with spaceRunes_props [OF mem] show False by simp
      qed
    qed
  qed
  then have L: "TrimLeft ?e = ?e"
    by (intro TrimLeft_None) (simp add: find_None_iff)
  have "\<not> suffix p ?e" if mem: "p \<in> set spaceRunes" for p
  proof
    assume "suffix p ?e"
    then have "suffix p (CHR '':'' # addr) \<or> (\<exists>us. p = us @ CHR '':'' # addr)"
      by (auto simp: suffix_append)
    then have "suffix p addr \<or> CHR '':'' \<in> set p"
      by (auto simp: suffix_Cons)
    with noR [OF mem] spaceRunes_props [OF mem] show False by simp
  qed
  then have R: "TrimRight ?e = ?e"
    by (intro TrimRight_None) (simp add: find_None_iff)
  from L R show ?thesis by (simp add: TrimSpace_def)
qed

lemma Split_two:
  "sep \<notin> set a \<Longrightarrow> sep \<notin> set b \<Longrightarrow> Split (a @ sep # b) sep = [a, b]"
  by (simp add: Split_append Split_no_sep)

lemma entry_verbatim:
  assumes "TrimSpace name = name" "name \<noteq> []" "TrimSpace addr = addr" "addr \<noteq> []"
    and "CHR '':'' \<notin> set name" "CHR '':'' \<notin> set addr"
  shows "entry_kept (name @ CHR '':'' # addr)"
    and "entry_outlet (name @ CHR '':'' # addr) = \<lparr>Name = name, IP = addr\<rparr>"
  using assms
  by (simp_all add: entry_kept_def entry_outlet_def TrimSpace_entry_fixed Split_two)

subsection \<open>Tasks and schedules of the collector\<close>






















subsection \<open>The decoder\<close>
































section \<open>The claims\<close>

subsection \<open>The collector\<close>











subsection \<open>The registry parser\<close>

text \<open>
  C4. For every input string \<open>parseOutlets\<close> returns one outlet per comma-separated
  entry that, after trimming, splits on \<open>:\<close> into exactly two parts whose trimmed name
  and address are both non-empty (the outlet has the trimmed parts), and drops every
  other entry; it has no failure. \<open>"livingroom:192.168.1.100"\<close> gives the one outlet
  \<open>{livingroom, 192.168.1.100}\<close>; \<open>""\<close>, \<open>"invalid"\<close>, \<open>"livingroom:"\<close> and
  \<open>":192.168.1.100"\<close> give the empty sequence.
\<close>

theorem parseOutlets_keeps_valid_entries:
  "parseOutlets s = registry_spec s \<and>
   parseOutlets ''livingroom:192.168.1.100''
     = [\<lparr>Name = ''livingroom'', IP = ''192.168.1.100''\<rparr>] \<and>
   parseOutlets '''' = [] \<and>
   parseOutlets ''invalid'' = [] \<and>
   parseOutlets ''livingroom:'' = [] \<and>
   parseOutlets '':192.168.1.100'' = []"
proof (intro conjI)
  show "parseOutlets s = registry_spec s"
    by (rule parseOutlets_registry_spec)
  show "parseOutlets ''livingroom:192.168.1.100''
      = [\<lparr>Name = ''livingroom'', IP = ''192.168.1.100''\<rparr>]"
    by code_simp
  show "parseOutlets '''' = []" by code_simp
  show "parseOutlets ''invalid'' = []" by code_simp
  show "parseOutlets ''livingroom:'' = []" by code_simp
  show "parseOutlets '':192.168.1.100'' = []" by code_simp
qed

theorem parseOutlets_keeps_valid_entries_witness:
  "parseOutlets '' livingroom : 192.168.1.100 , bedroom : 192.168.1.101 ''
     = [\<lparr>Name = ''livingroom'', IP = ''192.168.1.100''\<rparr>,
        \<lparr>Name = ''bedroom'', IP = ''192.168.1.101''\<rparr>]"
proof -
  have "registry_spec '' livingroom : 192.168.1.100 , bedroom : 192.168.1.101 ''
     = [\<lparr>Name = ''livingroom'', IP = ''192.168.1.100''\<rparr>,
        \<lparr>Name = ''bedroom'', IP = ''192.168.1.101''\<rparr>]"
    by code_simp
  with parseOutlets_keeps_valid_entries
    [of "'' livingroom : 192.168.1.100 , bedroom : 192.168.1.101 ''"]
  show ?thesis by simp
qed

text \<open>
  C5. The output of \<open>parseOutlets\<close> keeps the input order and every duplicate: it is the
  concatenation, in input order, of what each comma-separated entry gives when parsed
  alone, so parsing distributes over joining two inputs with a comma, and an input
  repeated after a comma gives its outlets twice. Entries that repeat an earlier name or
  address are kept.
\<close>

theorem parseOutlets_order_and_duplicates:
  "parseOutlets s = concat (map parseOutlets (Split s (CHR '',''))) \<and>
   parseOutlets (s1 @ CHR '','' # s2) = parseOutlets s1 @ parseOutlets s2 \<and>
   parseOutlets (s @ CHR '','' # s) = parseOutlets s @ parseOutlets s \<and>
   parseOutlets ''a:10.0.0.1,b:10.0.0.2,a:10.0.0.3,c:10.0.0.2,a:10.0.0.1''
     = [\<lparr>Name = ''a'', IP = ''10.0.0.1''\<rparr>, \<lparr>Name = ''b'', IP = ''10.0.0.2''\<rparr>,
        \<lparr>Name = ''a'', IP = ''10.0.0.3''\<rparr>, \<lparr>Name = ''c'', IP = ''10.0.0.2''\<rparr>,
        \<lparr>Name = ''a'', IP = ''10.0.0.1''\<rparr>]"
proof (intro conjI)
  show "parseOutlets s = concat (map parseOutlets (Split s (CHR '','')))"
    by (rule parseOutlets_concat)
  show "parseOutlets (s1 @ CHR '','' # s2) = parseOutlets s1 @ parseOutlets s2"
    by (rule parseOutlets_append)
  show "parseOutlets (s @ CHR '','' # s) = parseOutlets s @ parseOutlets s"
    by (rule parseOutlets_append)
  show "parseOutlets ''a:10.0.0.1,b:10.0.0.2,a:10.0.0.3,c:10.0.0.2,a:10.0.0.1''
     = [\<lparr>Name = ''a'', IP = ''10.0.0.1''\<rparr>, \<lparr>Name = ''b'', IP = ''10.0.0.2''\<rparr>,
        \<lparr>Name = ''a'', IP = ''10.0.0.3''\<rparr>, \<lparr>Name = ''c'', IP = ''10.0.0.2''\<rparr>,
        \<lparr>Name = ''a'', IP = ''10.0.0.1''\<rparr>]"
    by code_simp
qed

theorem parseOutlets_order_and_duplicates_witness:
  "parseOutlets ''b:2,a:1,b:2'' = parseOutlets ''b:2'' @ parseOutlets ''a:1,b:2'' \<and>
   parseOutlets ''b:2,a:1,b:2''
     = [\<lparr>Name = ''b'', IP = ''2''\<rparr>, \<lparr>Name = ''a'', IP = ''1''\<rparr>, \<lparr>Name = ''b'', IP = ''2''\<rparr>]"
proof -
  have "parseOutlets ''b:2'' = [\<lparr>Name = ''b'', IP = ''2''\<rparr>]" by code_simp
  moreover have "parseOutlets ''a:1,b:2'' = [\<lparr>Name = ''a'', IP = ''1''\<rparr>, \<lparr>Name = ''b'', IP = ''2''\<rparr>]"
    by code_simp
  moreover have "parseOutlets (''b:2'' @ CHR '','' # ''a:1,b:2'')
      = parseOutlets ''b:2'' @ parseOutlets ''a:1,b:2''"
    using parseOutlets_order_and_duplicates [of "[]" "''b:2''" "''a:1,b:2''"] by blast
  ultimately show ?thesis by simp
qed

text \<open>
  C10. The parser checks nothing beyond splitting and trimming. A name and an address,
  each non-empty, without surrounding white space and free of \<open>:\<close> and \<open>,\<close>, joined by
  \<open>:\<close>, give the outlet with exactly that name and address, whatever the address is (it
  need not be an IP or a host name); any comma-free entry whose trimmed text splits into
  two parts with non-empty trimmed contents is accepted with those contents. An entry
  \<open>name:address\<close> whose address itself contains a \<open>:\<close> (host:port, an IPv6 literal) is
  always dropped.
\<close>

theorem parseOutlets_no_format_validation:
  "(name \<noteq> [] \<and> addr \<noteq> [] \<and> TrimSpace name = name \<and> TrimSpace addr = addr \<and>
    CHR '':'' \<notin> set name \<and> CHR '':'' \<notin> set addr \<and>
    CHR '','' \<notin> set name \<and> CHR '','' \<notin> set addr \<longrightarrow>
      parseOutlets (name @ CHR '':'' # addr) = [\<lparr>Name = name, IP = addr\<rparr>]) \<and>
   (CHR '','' \<notin> set entry \<and> Split (TrimSpace entry) (CHR '':'') = [n, a] \<and>
    TrimSpace n \<noteq> [] \<and> TrimSpace a \<noteq> [] \<longrightarrow>
      parseOutlets entry = [\<lparr>Name = TrimSpace n, IP = TrimSpace a\<rparr>]) \<and>
   (CHR '','' \<notin> set name' \<and> CHR '','' \<notin> set addr' \<and> CHR '':'' \<in> set addr' \<longrightarrow>
      parseOutlets (name' @ CHR '':'' # addr') = [])"
proof (intro conjI impI)
  assume h: "name \<noteq> [] \<and> addr \<noteq> [] \<and> TrimSpace name = name \<and> TrimSpace addr = addr \<and>
    CHR '':'' \<notin> set name \<and> CHR '':'' \<notin> set addr \<and>
    CHR '','' \<notin> set name \<and> CHR '','' \<notin> set addr"
  then have "CHR '','' \<notin> set (name @ CHR '':'' # addr)" by simp
  moreover from h have "entry_kept (name @ CHR '':'' # addr)"
    and "entry_outlet (name @ CHR '':'' # addr) = \<lparr>Name = name, IP = addr\<rparr>"
    by (simp_all add: entry_verbatim)
  ultimately show "parseOutlets (name @ CHR '':'' # addr) = [\<lparr>Name = name, IP = addr\<rparr>]"
    by (simp add: parseOutlets_entry)
next
  assume h: "CHR '','' \<notin> set entry \<and> Split (TrimSpace entry) (CHR '':'') = [n, a] \<and>
    TrimSpace n \<noteq> [] \<and> TrimSpace a \<noteq> []"
  then have "entry_kept entry" and "entry_outlet entry = \<lparr>Name = TrimSpace n, IP = TrimSpace a\<rparr>"
    by (simp_all add: entry_kept_def entry_outlet_def)
  with h show "parseOutlets entry = [\<lparr>Name = TrimSpace n, IP = TrimSpace a\<rparr>]"
    by (simp add: parseOutlets_entry)
next
  assume h: "CHR '','' \<notin> set name' \<and> CHR '','' \<notin> set addr' \<and> CHR '':'' \<in> set addr'"
  then have "CHR '','' \<notin> set (name' @ CHR '':'' # addr')" by simp
  moreover from h have "\<not> entry_kept (name' @ CHR '':'' # addr')"
    by (simp add: entry_two_colons_dropped)
  ultimately show "parseOutlets (name' @ CHR '':'' # addr') = []"
    by (simp add: parseOutlets_entry)
qed

theorem parseOutlets_no_format_validation_witness:
  "parseOutlets ''plug:not/an address!'' = [\<lparr>Name = ''plug'', IP = ''not/an address!''\<rparr>] \<and>
   parseOutlets '' plug : ??? '' = [\<lparr>Name = ''plug'', IP = ''???''\<rparr>] \<and>
   parseOutlets ''plug:192.168.1.100:8080'' = []"
proof -
  have t1: "TrimSpace ''plug'' = ''plug''" by code_simp
  have t2: "TrimSpace ''not/an address!'' = ''not/an address!''" by code_simp
  have s: "Split (TrimSpace '' plug : ??? '') (CHR '':'') = [''plug '', '' ???'']" by code_simp
  have t3: "TrimSpace ''plug '' = ''plug''" by code_simp
  have t4: "TrimSpace '' ???'' = ''???''" by code_simp
  from parseOutlets_no_format_validation
    [of "''plug''" "''not/an address!''" "'' plug : ??? ''" "''plug ''" "'' ???''"
      "''plug''" "''192.168.1.100:8080''"]
  show ?thesis by (simp add: t1 t2 s t3 t4)
qed

subsection \<open>The status payload\<close>




end
